theory Spec2Isabelle
  imports Main
begin

section \<open>Regular expressions: the Qt capability used by the filters\<close>

text \<open>
  The filters of glogg hold a \<^verbatim>\<open>QRegularExpression\<close>. Qt is not part of the
  repository, so the regular expression object is modelled by what the filter code
  relies on: the pattern string and the set of pattern options. Two
  \<^verbatim>\<open>QRegularExpression\<close> objects are equal (Qt's \<^verbatim>\<open>operator==\<close>) when they
  have the same pattern string and the same pattern options, which is the equality
  of the record below.
\<close>

datatype PatternOption =
  CaseInsensitiveOption | UseUnicodePropertiesOption | OptimizeOnFirstUsageOption

record QRegularExpression =
  re_pattern :: string
  re_options :: "PatternOption set"

text \<open>\<^verbatim>\<open>getPatternOptions( bool ignoreCase )\<close>, filterset.cpp lines 42-52.\<close>

definition getPatternOptions :: "bool \<Rightarrow> PatternOption set" where
  "getPatternOptions ignoreCase' =
     (let options = {UseUnicodePropertiesOption, OptimizeOnFirstUsageOption}
      in if ignoreCase' then options \<union> {CaseInsensitiveOption} else options)"

text \<open>
  The matching engine itself is a parameter of every function that matches: it says
  which regular expressions compile (\<open>isValid\<close>) and, for one that compiles, whether
  a subject string contains a match (\<open>exec\<close>). \<^verbatim>\<open>QRegularExpression::match\<close> on an
  expression that does not compile returns an invalid match object, whose
  \<^verbatim>\<open>hasMatch()\<close> is false; it throws nothing.
\<close>

record RegexEngine =
  isValid :: "QRegularExpression \<Rightarrow> bool"
  exec :: "QRegularExpression \<Rightarrow> string \<Rightarrow> bool"

datatype QRegularExpressionMatch = HasMatch | NoMatch | InvalidMatch

definition re_match :: "RegexEngine \<Rightarrow> QRegularExpression \<Rightarrow> string \<Rightarrow> QRegularExpressionMatch" where
  "re_match E re subject =
     (if \<not> isValid E re then InvalidMatch
      else if exec E re subject then HasMatch else NoMatch)"

definition match_hasMatch :: "QRegularExpressionMatch \<Rightarrow> bool" where
  "match_hasMatch m = (m = HasMatch)"

text \<open>
  A concrete engine for evaluating examples: every pattern is taken literally and
  matches a subject that contains it as a contiguous substring. This is what a PCRE
  engine computes for a pattern without metacharacters and without the
  case-insensitive option; in particular the empty pattern compiles and matches at
  offset 0 of every subject.
\<close>

fun startsWith :: "string \<Rightarrow> string \<Rightarrow> bool" where
  "startsWith s [] = True"
| "startsWith [] (p # ps) = False"
| "startsWith (c # cs) (p # ps) = (c = p \<and> startsWith cs ps)"

fun containsLiteral :: "string \<Rightarrow> string \<Rightarrow> bool" where
  "containsLiteral [] p = startsWith [] p"
| "containsLiteral (c # cs) p = (startsWith (c # cs) p \<or> containsLiteral cs p)"

definition literalEngine :: RegexEngine where
  "literalEngine = \<lparr>isValid = (\<lambda>re. True), exec = (\<lambda>re subject. containsLiteral subject (re_pattern re))\<rparr>"

section \<open>Filter\<close>

text \<open>
  \<^verbatim>\<open>class Filter\<close> (filterset.h): the fields \<^verbatim>\<open>regexp_\<close>,
  \<^verbatim>\<open>foreColorName_\<close>, \<^verbatim>\<open>backColorName_\<close>, \<^verbatim>\<open>enabled_\<close>,
  \<^verbatim>\<open>origin_\<close> and \<^verbatim>\<open>loaded_offset_\<close>, written without the trailing underscore.
  The default constructor leaves \<^verbatim>\<open>enabled_\<close> uninitialised, which is \<open>None\<close>
  here; no function of the repository reads the field. The selectors
  \<open>foreColorName\<close>, \<open>backColorName\<close>, \<open>origin\<close> and \<open>loaded_offset\<close> are
  also the accessors of the same names (\<^verbatim>\<open>loadedOffset()\<close> for the last).
\<close>

record Filter =
  regexp :: QRegularExpression
  foreColorName :: string
  backColorName :: string
  enabled :: "bool option"
  origin :: int
  loaded_offset :: int


text \<open>The six-argument constructor, filterset.cpp lines 59-69.\<close>

definition Filter_new :: "string \<Rightarrow> bool \<Rightarrow> string \<Rightarrow> string \<Rightarrow> int \<Rightarrow> int \<Rightarrow> Filter" where
  "Filter_new pat ignoreCase' foreColor backColor origin' loaded_offset' =
     \<lparr>regexp = \<lparr>re_pattern = pat, re_options = getPatternOptions ignoreCase'\<rparr>,
      foreColorName = foreColor, backColorName = backColor,
      enabled = Some True, origin = origin', loaded_offset = loaded_offset'\<rparr>"

definition pattern :: "Filter \<Rightarrow> string" where
  "pattern f = re_pattern (regexp f)"

definition setPattern :: "string \<Rightarrow> Filter \<Rightarrow> Filter" where
  "setPattern pat f = f\<lparr>regexp := (regexp f)\<lparr>re_pattern := pat\<rparr>\<rparr>"

definition ignoreCase :: "Filter \<Rightarrow> bool" where
  "ignoreCase f = (CaseInsensitiveOption \<in> re_options (regexp f))"

definition setIgnoreCase :: "bool \<Rightarrow> Filter \<Rightarrow> Filter" where
  "setIgnoreCase b f = f\<lparr>regexp := (regexp f)\<lparr>re_options := getPatternOptions b\<rparr>\<rparr>"

definition setForeColor :: "string \<Rightarrow> Filter \<Rightarrow> Filter" where
  "setForeColor c f = f\<lparr>foreColorName := c\<rparr>"

definition setBackColor :: "string \<Rightarrow> Filter \<Rightarrow> Filter" where
  "setBackColor c f = f\<lparr>backColorName := c\<rparr>"

text \<open>\<^verbatim>\<open>Filter::hasMatch\<close>, filterset.cpp lines 131-134.\<close>

definition hasMatch :: "RegexEngine \<Rightarrow> Filter \<Rightarrow> string \<Rightarrow> bool" where
  "hasMatch E f subject = match_hasMatch (re_match E (regexp f) subject)"

text \<open>
  \<^verbatim>\<open>Filter::operator==\<close> (filterset.h): the regular expression objects and the two
  colour names are compared; \<^verbatim>\<open>enabled_\<close> and \<^verbatim>\<open>origin_\<close> are commented out of
  the comparison and \<^verbatim>\<open>loaded_offset_\<close> is not mentioned.
\<close>

definition Filter_eq :: "Filter \<Rightarrow> Filter \<Rightarrow> bool" where
  "Filter_eq a b =
     (regexp a = regexp b \<and> foreColorName a = foreColorName b \<and> backColorName a = backColorName b)"

definition Filter_neq :: "Filter \<Rightarrow> Filter \<Rightarrow> bool" where
  "Filter_neq a b = (\<not> Filter_eq a b)"

section \<open>FilterSet\<close>

record FilterSet =
  filterList :: "Filter list"

text \<open>
  A \<^verbatim>\<open>QColor\<close> is kept as the name it was last given by \<^verbatim>\<open>setNamedColor\<close>;
  turning a name into a colour value is Qt's concern.
\<close>

datatype QColor = InvalidColor | NamedColor string

definition setNamedColor :: "string \<Rightarrow> QColor" where
  "setNamedColor name = NamedColor name"

text \<open>
  \<^verbatim>\<open>FilterSet::matchLine\<close>, filterset.cpp lines 171-184. The two colours are
  output parameters: the result carries the returned flag and the colours as they
  are after the call, untouched when no filter matches.
\<close>

fun matchLine_loop :: "RegexEngine \<Rightarrow> Filter list \<Rightarrow> string \<Rightarrow> QColor \<times> QColor \<Rightarrow> bool \<times> QColor \<times> QColor" where
  "matchLine_loop E [] line (foreColor, backColor) = (False, foreColor, backColor)"
| "matchLine_loop E (f # fs) line (foreColor, backColor) =
     (if hasMatch E f line
      then (True, setNamedColor (foreColorName f), setNamedColor (backColorName f))
      else matchLine_loop E fs line (foreColor, backColor))"

definition matchLine :: "RegexEngine \<Rightarrow> FilterSet \<Rightarrow> string \<Rightarrow> QColor \<times> QColor \<Rightarrow> bool \<times> QColor \<times> QColor" where
  "matchLine E fset line colors = matchLine_loop E (filterList fset) line colors"

section \<open>Loaded filter sets\<close>

text \<open>
  \<^verbatim>\<open>struct NamedFilterSet\<close> and \<^verbatim>\<open>class LoadedFilterSets\<close> (filterset.h). The
  field \<^verbatim>\<open>set\<close> is written \<open>set'\<close>.
\<close>

record NamedFilterSet =
  filename :: string
  set' :: FilterSet
  missing :: bool


record LoadedFilterSets =
  namedFilterSets :: "NamedFilterSet list"

section \<open>Failures\<close>

text \<open>
  What C++ leaves undefined or stops with an assertion is a failure value of the
  model: an index outside a \<^verbatim>\<open>QList\<close> or a \<^verbatim>\<open>std::vector\<close>
  (\<^verbatim>\<open>operator[]\<close>, \<^verbatim>\<open>QList::move\<close>), an \<^verbatim>\<open>assert\<close> that does not
  hold, and a null pointer that is dereferenced. \<open>OutOfFuel\<close> is the model's
  own: a bound on nested file loads was reached.
\<close>

datatype failure = AssertionFailed | IndexOutOfRange | NullPointer | OutOfFuel

definition at :: "'a list \<Rightarrow> int \<Rightarrow> failure + 'a" where
  "at xs i = (if 0 \<le> i \<and> i < int (length xs) then Inr (xs ! nat i) else Inl IndexOutOfRange)"

text \<open>
  \<^verbatim>\<open>QList::removeAt(i)\<close> removes the item at \<open>i\<close> and does nothing when \<open>i\<close>
  is out of range. \<^verbatim>\<open>QList::move(from, to)\<close> takes the item at \<open>from\<close> out and
  puts it back at \<open>to\<close>; both indices are in range where it is called.
\<close>

definition QList_removeAt :: "int \<Rightarrow> 'a list \<Rightarrow> 'a list" where
  "QList_removeAt i xs =
     (if 0 \<le> i \<and> i < int (length xs) then take (nat i) xs @ drop (Suc (nat i)) xs else xs)"

definition QList_move :: "nat \<Rightarrow> nat \<Rightarrow> 'a list \<Rightarrow> 'a list" where
  "QList_move from to xs =
     (let x = xs ! from; ys = take from xs @ drop (Suc from) xs
      in take to ys @ x # drop to ys)"

section \<open>FiltersDialog\<close>

text \<open>
  \<^verbatim>\<open>struct FilterRef\<close> (filtersdialog.h) and the data the dialog keeps: its copy
  of the filter set, its copy of the loaded filter sets and the table
  \<^verbatim>\<open>loadedFilterRefs\<close>, indexed by origin and then by position. Of the widgets
  only the current row of \<^verbatim>\<open>loadedFilterListWidget\<close> is kept, which the slots
  read to choose the loaded set they work on; icons, texts, colours and selections
  of the list widgets are presentation and are left out.
\<close>

record FilterRef =
  loaded_index :: int
  filter_index :: int
  modified :: bool

definition FilterRef_new :: "int \<Rightarrow> int \<Rightarrow> FilterRef" where
  "FilterRef_new loaded filter' = \<lparr>loaded_index = loaded, filter_index = filter', modified = False\<rparr>"

definition isActive :: "FilterRef \<Rightarrow> bool" where
  "isActive r = (filter_index r \<ge> 0)"

record FiltersDialog =
  filterSet :: FilterSet
  loadedFilterSets :: LoadedFilterSets
  loadedFilterRefs :: "FilterRef list list"
  loadedFilterListWidget_currentRow :: int

text \<open>
  A \<^verbatim>\<open>FilterRef&\<close> is either an element of \<^verbatim>\<open>loadedFilterRefs\<close>, named by its
  two indices, or a local object of the caller (the \<^verbatim>\<open>dummy\<close> of
  \<^verbatim>\<open>on_removeFilterButton_clicked\<close>).
\<close>

datatype FilterRefLoc = InRefs nat nat | Dummy FilterRef

definition getRef :: "FiltersDialog \<Rightarrow> FilterRefLoc \<Rightarrow> failure + FilterRef" where
  "getRef d loc =
     (case loc of
        Dummy r \<Rightarrow> Inr r
      | InRefs og pos \<Rightarrow>
          (case at (loadedFilterRefs d) (int og) of
             Inl e \<Rightarrow> Inl e
           | Inr refs \<Rightarrow> at refs (int pos)))"

definition update2 :: "'a list list \<Rightarrow> nat \<Rightarrow> nat \<Rightarrow> 'a \<Rightarrow> 'a list list" where
  "update2 xss i j v = xss[i := (xss ! i)[j := v]]"

definition updRef :: "FilterRefLoc \<Rightarrow> (FilterRef \<Rightarrow> FilterRef) \<Rightarrow> FiltersDialog \<Rightarrow> FiltersDialog" where
  "updRef loc f d =
     (case loc of
        Dummy r \<Rightarrow> d
      | InRefs og pos \<Rightarrow>
          d\<lparr>loadedFilterRefs :=
              update2 (loadedFilterRefs d) og pos (f (loadedFilterRefs d ! og ! pos))\<rparr>)"

text \<open>
  \<^verbatim>\<open>FiltersDialog::findLoadedFilterRef\<close>, filtersdialog.cpp lines 109-123: a linear
  search for the first reference of the origin's list whose \<^verbatim>\<open>filter_index\<close> is
  the index. Running off the end of the list is the failed assertion.
\<close>

fun findLoadedFilterRef_loop :: "FilterRef list \<Rightarrow> int \<Rightarrow> nat \<Rightarrow> failure + nat" where
  "findLoadedFilterRef_loop [] index pos = Inl AssertionFailed"
| "findLoadedFilterRef_loop (r # rs) index pos =
     (if filter_index r \<noteq> index then findLoadedFilterRef_loop rs index (Suc pos) else Inr pos)"

definition findLoadedFilterRef :: "FiltersDialog \<Rightarrow> int \<Rightarrow> int \<Rightarrow> failure + FilterRefLoc" where
  "findLoadedFilterRef d origin' index =
     (case at (loadedFilterRefs d) origin' of
        Inl e \<Rightarrow> Inl e
      | Inr refs \<Rightarrow>
          (case findLoadedFilterRef_loop refs index 0 of
             Inl e \<Rightarrow> Inl e
           | Inr pos \<Rightarrow> Inr (InRefs (nat origin') pos)))"

text \<open>
  A \<^verbatim>\<open>FilterRef*\<close> that is null unless the origin is not negative
  (\<^verbatim>\<open>if ( from_origin >= 0 ) from_ref = &findLoadedFilterRef( ... )\<close>), and the
  guarded write through it (\<^verbatim>\<open>if ( from_ref ) from_ref->filter_index = to\<close>).
\<close>

definition findRefIfLoaded :: "FiltersDialog \<Rightarrow> int \<Rightarrow> int \<Rightarrow> failure + FilterRefLoc option" where
  "findRefIfLoaded d origin' index =
     (if origin' \<ge> 0
      then (case findLoadedFilterRef d origin' index of Inl e \<Rightarrow> Inl e | Inr loc \<Rightarrow> Inr (Some loc))
      else Inr None)"

definition setFilterIndexIf :: "FilterRefLoc option \<Rightarrow> int \<Rightarrow> FiltersDialog \<Rightarrow> FiltersDialog" where
  "setFilterIndexIf ref v d =
     (case ref of None \<Rightarrow> d | Some loc \<Rightarrow> updRef loc (\<lambda>r. r\<lparr>filter_index := v\<rparr>) d)"

text \<open>
  \<^verbatim>\<open>FiltersDialog::moveFilter\<close>, filtersdialog.cpp lines 125-154. Both references
  are looked up before either is written.
\<close>

definition moveFilter :: "FiltersDialog \<Rightarrow> int \<Rightarrow> int \<Rightarrow> failure + FiltersDialog" where
  "moveFilter d from to =
     (case at (filterList (filterSet d)) from of
        Inl e \<Rightarrow> Inl e
      | Inr from_filter \<Rightarrow>
     (case at (filterList (filterSet d)) to of
        Inl e \<Rightarrow> Inl e
      | Inr to_filter \<Rightarrow>
     (let from_origin = origin from_filter;
          to_origin = origin to_filter;
          d1 = d\<lparr>filterSet := \<lparr>filterList = QList_move (nat from) (nat to) (filterList (filterSet d))\<rparr>\<rparr>
      in
     (case findRefIfLoaded d1 from_origin from of
        Inl e \<Rightarrow> Inl e
      | Inr from_ref \<Rightarrow>
     (case findRefIfLoaded d1 to_origin to of
        Inl e \<Rightarrow> Inl e
      | Inr to_ref \<Rightarrow>
          Inr (setFilterIndexIf to_ref from (setFilterIndexIf from_ref to d1)))))))"

text \<open>
  \<^verbatim>\<open>FiltersDialog::removeFilter\<close>, filtersdialog.cpp lines 156-222. The block
  that starts at line 194 only repaints widgets, but it reads
  \<^verbatim>\<open>filterSet[filterRef.filter_index]\<close> and \<^verbatim>\<open>loadedFilterRefs[origin]\<close>, which
  must be in range.
\<close>

definition removeFilter :: "FiltersDialog \<Rightarrow> FilterRefLoc \<Rightarrow> failure + FiltersDialog" where
  "removeFilter d filterRef =
     (case getRef d filterRef of
        Inl e \<Rightarrow> Inl e
      | Inr r \<Rightarrow>
     (if \<not> isActive r then Inl AssertionFailed
      else
     (let d1 = updRef filterRef (\<lambda>x. x\<lparr>modified := False\<rparr>) d;
          d2 = d1\<lparr>loadedFilterRefs :=
                  map (map (\<lambda>ref. if filter_index ref > filter_index r
                                   then ref\<lparr>filter_index := filter_index ref - 1\<rparr> else ref))
                      (loadedFilterRefs d1)\<rparr>
      in
     (case (if loaded_index r \<ge> 0
            then (case at (filterList (filterSet d2)) (filter_index r) of
                    Inl e \<Rightarrow> Inl e
                  | Inr f \<Rightarrow> map_sum id (\<lambda>refs. ()) (at (loadedFilterRefs d2) (origin f)))
            else Inr ()) of
        Inl e \<Rightarrow> Inl e
      | Inr u \<Rightarrow>
     (let d3 = d2\<lparr>filterSet := \<lparr>filterList = QList_removeAt (filter_index r) (filterList (filterSet d2))\<rparr>\<rparr>
      in Inr (updRef filterRef (\<lambda>x. x\<lparr>filter_index := - 1\<rparr>) d3))))))"

text \<open>
  The invariant that ties \<^verbatim>\<open>loadedFilterRefs\<close> to the filter set: an active
  reference in the list of origin \<open>og\<close> points at a filter of the set whose
  origin is \<open>og\<close>, and no two references of one list point at the same filter.
\<close>

definition refsConsistent :: "FiltersDialog \<Rightarrow> bool" where
  "refsConsistent d =
     (\<forall>og < length (loadedFilterRefs d).
        (\<forall>i < length (loadedFilterRefs d ! og).
           isActive (loadedFilterRefs d ! og ! i) \<longrightarrow>
             filter_index (loadedFilterRefs d ! og ! i) < int (length (filterList (filterSet d)))
             \<and> origin (filterList (filterSet d) ! nat (filter_index (loadedFilterRefs d ! og ! i))) = int og
             \<and> (\<forall>j < length (loadedFilterRefs d ! og).
                   filter_index (loadedFilterRefs d ! og ! j) = filter_index (loadedFilterRefs d ! og ! i)
                   \<longrightarrow> j = i)))"

definition refAt :: "FiltersDialog \<Rightarrow> nat \<Rightarrow> nat \<Rightarrow> FilterRef" where
  "refAt d og pos = loadedFilterRefs d ! og ! pos"



text \<open>
  A dialog for examples: the set of the file team.conf is loaded as origin 0, its
  two rules are in the filter set at indices 0 and 1, and a rule without origin
  follows them.
\<close>

definition exampleDialog :: FiltersDialog where
  "exampleDialog =
     \<lparr>filterSet = \<lparr>filterList =
        [Filter_new ''ERROR'' False ''black'' ''red'' 0 0,
         Filter_new ''WARN'' False ''black'' ''yellow'' 0 1,
         Filter_new ''New Filter'' False ''black'' ''white'' (- 1) (- 1)]\<rparr>,
      loadedFilterSets = \<lparr>namedFilterSets =
        [\<lparr>filename = ''team.conf'',
          set' = \<lparr>filterList =
            [Filter_new ''ERROR'' False ''black'' ''red'' 0 (- 1),
             Filter_new ''WARN'' False ''black'' ''yellow'' 0 (- 1)]\<rparr>,
          missing = False\<rparr>]\<rparr>,
      loadedFilterRefs =
        [[\<lparr>loaded_index = 0, filter_index = 0, modified = False\<rparr>,
          \<lparr>loaded_index = 1, filter_index = 1, modified = False\<rparr>]],
      loadedFilterListWidget_currentRow = 0\<rparr>"

section \<open>QSettings\<close>

text \<open>
  The settings store is Qt's \<^verbatim>\<open>QSettings\<close>, which is not part of the repository.
  It is modelled as Qt documents it: a map from keys to \<^verbatim>\<open>QVariant\<close> values, a key
  being a path of names, with a stack of groups that prefixes every key, and arrays
  whose entry \<open>i\<close> lives under the index \<open>i + 1\<close> and whose length is kept under
  the key \<open>size\<close>. A key written \<^verbatim>\<open>"FilterSet/version"\<close> in the source is the
  path \<open>[Name ''FilterSet'', Name ''version'']\<close>.
\<close>

datatype QVariant =
  Invalid
| QString string
| QInt int
| QBool bool
| QFilterSetBlob "(QRegularExpression \<times> string \<times> string) list"

















datatype KeyPart = Name string | Index int

type_synonym Key = "KeyPart list"

type_synonym Store = "Key \<rightharpoonup> QVariant"

















section \<open>Saving filters\<close>







section \<open>The environment of retrieval\<close>

text \<open>
  What the retrieval functions reach besides their arguments: the persistent
  object \<^verbatim>\<open>Persistent<LoadedFilterSets>( "loadedFilterSets" )\<close>; the files, each a
  settings file in INI format given by its store (a file that does not exist has
  none); the log, of which the warnings and errors are kept as events; and one
  filter set that is not part of the loaded filter sets (the set being retrieved by
  the caller, or the local \<^verbatim>\<open>actual\<close> of \<^verbatim>\<open>LoadedFilterSets::retrieveFromStorage\<close>).
\<close>

datatype LogEvent =
  FileNotLoaded string
| CannotFind string
| OriginSet int string int
| LoadedOffsetSet int string int
| LoadedOffsetSetInFile string string int
| InvalidOffset int string int
| UnknownFilterSetVersion
| LegacyImport
| LegacyImported nat
| UnknownNamedFilterSetVersion
| FileHasChanged string

record Env =
  persistent :: LoadedFilterSets
  standalone :: FilterSet
  files :: "string \<rightharpoonup> Store"
  logged :: "LogEvent list"

definition LOG :: "LogEvent \<Rightarrow> Env \<Rightarrow> Env" where
  "LOG e env = env\<lparr>logged := logged env @ [e]\<rparr>"

definition QFile_exists :: "Env \<Rightarrow> string \<Rightarrow> bool" where
  "QFile_exists env file = (files env file \<noteq> None)"



text \<open>
  The filter set a \<^verbatim>\<open>FilterSet*\<close> points at: the set of a named filter set of the
  persistent object, by its index, or the one outside of it.
\<close>

datatype SetLoc = Standalone | InRegistry nat

definition getList :: "SetLoc \<Rightarrow> Env \<Rightarrow> Filter list" where
  "getList loc env =
     (case loc of
        Standalone \<Rightarrow> filterList (standalone env)
      | InRegistry i \<Rightarrow> filterList (set' (namedFilterSets (persistent env) ! i)))"

definition mapNamedSet :: "nat \<Rightarrow> (NamedFilterSet \<Rightarrow> NamedFilterSet) \<Rightarrow> Env \<Rightarrow> Env" where
  "mapNamedSet i f env =
     env\<lparr>persistent :=
           \<lparr>namedFilterSets = (namedFilterSets (persistent env))[i := f (namedFilterSets (persistent env) ! i)]\<rparr>\<rparr>"

definition putList :: "SetLoc \<Rightarrow> Filter list \<Rightarrow> Env \<Rightarrow> Env" where
  "putList loc fs env =
     (case loc of
        Standalone \<Rightarrow> env\<lparr>standalone := \<lparr>filterList = fs\<rparr>\<rparr>
      | InRegistry i \<Rightarrow> mapNamedSet i (\<lambda>n. n\<lparr>set' := \<lparr>filterList = fs\<rparr>\<rparr>) env)"

definition emplace_back :: "NamedFilterSet \<Rightarrow> Env \<Rightarrow> Env" where
  "emplace_back n env =
     env\<lparr>persistent := \<lparr>namedFilterSets = namedFilterSets (persistent env) @ [n]\<rparr>\<rparr>"


section \<open>Retrieving filters\<close>

text \<open>
  \<^verbatim>\<open>Filter::retrieveFromStorage\<close>, filterset.cpp lines 230-318, in the three
  parts that follow. The filter being retrieved is the last element of the list its
  filter set is building; the function works on the value \<open>t\<close> of that element, and
  the caller stores the result in the element afterwards. The nested call
  \<^verbatim>\<open>set->retrieveFromStorage( missing_settings )\<close> is the parameter \<open>nested\<close>.
\<close>

text \<open>Lines 244-254: the index of the first named set with the file name.\<close>

fun findNamedSet :: "NamedFilterSet list \<Rightarrow> string \<Rightarrow> nat \<Rightarrow> nat option" where
  "findNamedSet [] origin_file i = None"
| "findNamedSet (n # ns) origin_file i =
     (if filename n = origin_file then Some i else findNamedSet ns origin_file (Suc i))"












section \<open>Examples of stored filters\<close>








section \<open>Saving and undoing the changes of loaded filters\<close>





text \<open>What the three setters copy from one filter into another.\<close>

definition copyStyle :: "Filter \<Rightarrow> Filter \<Rightarrow> Filter" where
  "copyStyle src dst =
     setBackColor (backColorName src) (setForeColor (foreColorName src) (setPattern (pattern src) dst))"



section \<open>Saving and retrieving the loaded filter sets\<close>














section \<open>What a saved filter set holds\<close>










section \<open>Properties\<close>

lemma matchLine_loop_none:
  "\<forall>f \<in> set fs. \<not> hasMatch E f line \<Longrightarrow> matchLine_loop E fs line (fc, bc) = (False, fc, bc)"
  by (induction fs) auto

lemma matchLine_loop_first:
  "i < length fs \<Longrightarrow> hasMatch E (fs ! i) line \<Longrightarrow> \<forall>j < i. \<not> hasMatch E (fs ! j) line \<Longrightarrow>
   matchLine_loop E (take (Suc i) fs @ rest) line (fc, bc) =
     (True, setNamedColor (foreColorName (fs ! i)), setNamedColor (backColorName (fs ! i)))"
proof (induction fs arbitrary: i)
  case Nil
  then show ?case by simp
next
  case (Cons f fs)
  show ?case
  proof (cases i)
    case 0
    with Cons.prems show ?thesis by simp
  next
    case (Suc k)
    have nf: "\<not> hasMatch E f line"
      using Cons.prems(3) Suc by (metis nth_Cons_0 zero_less_Suc)
    have later: "\<forall>j < k. \<not> hasMatch E (fs ! j) line"
      using Cons.prems(3) Suc by (metis Suc_less_eq nth_Cons_Suc)
    have "matchLine_loop E (take (Suc k) fs @ rest) line (fc, bc) =
            (True, setNamedColor (foreColorName (fs ! k)), setNamedColor (backColorName (fs ! k)))"
      using Cons.IH [of k] Cons.prems(1,2) Suc later by simp
    with nf Suc show ?thesis by simp
  qed
qed


text \<open>
  Claim C1. For every filter set and every line, \<open>matchLine\<close> returns true with
  the foreground and background colours of the lowest-index filter whose pattern
  matches the line, and returns false, leaving the colours alone, when no filter
  matches (in particular for the empty list). The filters after the first matching
  one play no part: replacing them by any other list \<open>rest\<close> gives the same result.
\<close>

theorem matchLine_first_match_wins:
  "((\<forall>f \<in> set fs. \<not> hasMatch E f line) \<longrightarrow>
      matchLine E \<lparr>filterList = fs\<rparr> line (fc, bc) = (False, fc, bc))
   \<and> matchLine E \<lparr>filterList = []\<rparr> line (fc, bc) = (False, fc, bc)
   \<and> (\<forall>i. i < length fs \<and> hasMatch E (fs ! i) line \<and> (\<forall>j < i. \<not> hasMatch E (fs ! j) line) \<longrightarrow>
        matchLine E \<lparr>filterList = fs\<rparr> line (fc, bc) =
          (True, setNamedColor (foreColorName (fs ! i)), setNamedColor (backColorName (fs ! i)))
        \<and> (\<forall>rest. matchLine E \<lparr>filterList = take (Suc i) fs @ rest\<rparr> line (fc, bc) =
              matchLine E \<lparr>filterList = fs\<rparr> line (fc, bc)))"
proof -
  have none: "(\<forall>f \<in> set fs. \<not> hasMatch E f line) \<longrightarrow>
      matchLine E \<lparr>filterList = fs\<rparr> line (fc, bc) = (False, fc, bc)"
    by (simp add: matchLine_def matchLine_loop_none)
  have empty: "matchLine E \<lparr>filterList = []\<rparr> line (fc, bc) = (False, fc, bc)"
    by (simp add: matchLine_def)
  have first: "matchLine E \<lparr>filterList = fs\<rparr> line (fc, bc) =
          (True, setNamedColor (foreColorName (fs ! i)), setNamedColor (backColorName (fs ! i)))
        \<and> (\<forall>rest. matchLine E \<lparr>filterList = take (Suc i) fs @ rest\<rparr> line (fc, bc) =
              matchLine E \<lparr>filterList = fs\<rparr> line (fc, bc))"
    if h: "i < length fs" "hasMatch E (fs ! i) line" "\<forall>j < i. \<not> hasMatch E (fs ! j) line" for i
  proof -
    have any: "matchLine_loop E (take (Suc i) fs @ rest) line (fc, bc) =
        (True, setNamedColor (foreColorName (fs ! i)), setNamedColor (backColorName (fs ! i)))" for rest
      using matchLine_loop_first [OF h] .
    have whole: "matchLine_loop E fs line (fc, bc) =
        (True, setNamedColor (foreColorName (fs ! i)), setNamedColor (backColorName (fs ! i)))"
      using any [of "drop (Suc i) fs"] by simp
    show ?thesis
      by (simp add: matchLine_def any whole)
  qed
  from none empty first show ?thesis by blast
qed

text \<open>
  The scenario of the specification: with the rules ERROR (black on red) and WARN
  (black on yellow), the line "WARN: disk full" gets the style of the second rule,
  which is the first one that matches.
\<close>

theorem matchLine_first_match_wins_witness:
  "(1::nat) < length [Filter_new ''ERROR'' False ''black'' ''red'' (- 1) (- 1),
                      Filter_new ''WARN'' False ''black'' ''yellow'' (- 1) (- 1)]
   \<and> hasMatch literalEngine (Filter_new ''WARN'' False ''black'' ''yellow'' (- 1) (- 1)) ''WARN: disk full''
   \<and> \<not> hasMatch literalEngine (Filter_new ''ERROR'' False ''black'' ''red'' (- 1) (- 1)) ''WARN: disk full''
   \<and> matchLine literalEngine
        \<lparr>filterList = [Filter_new ''ERROR'' False ''black'' ''red'' (- 1) (- 1),
                       Filter_new ''WARN'' False ''black'' ''yellow'' (- 1) (- 1)]\<rparr>
        ''WARN: disk full'' (InvalidColor, InvalidColor) =
      (True, NamedColor ''black'', NamedColor ''yellow'')"
proof -
  let ?e = "Filter_new ''ERROR'' False ''black'' ''red'' (- 1) (- 1)"
  let ?w = "Filter_new ''WARN'' False ''black'' ''yellow'' (- 1) (- 1)"
  let ?line = "''WARN: disk full''"
  note t = matchLine_first_match_wins [where fs = "[?e, ?w]" and E = literalEngine
        and line = ?line and fc = InvalidColor and bc = InvalidColor]
  have w: "hasMatch literalEngine ?w ?line"
    by (simp add: hasMatch_def match_hasMatch_def re_match_def literalEngine_def Filter_new_def)
  have e: "\<not> hasMatch literalEngine ?e ?line"
    by (simp add: hasMatch_def match_hasMatch_def re_match_def literalEngine_def Filter_new_def)
  have len: "(1::nat) < length [?e, ?w]" by simp
  have at1: "hasMatch literalEngine ([?e, ?w] ! 1) ?line"
    using w by simp
  have before: "\<forall>j < (1::nat). \<not> hasMatch literalEngine ([?e, ?w] ! j) ?line"
    using e by simp
  from t len at1 before
  have "matchLine literalEngine \<lparr>filterList = [?e, ?w]\<rparr> ?line (InvalidColor, InvalidColor) =
          (True, setNamedColor (foreColorName ([?e, ?w] ! 1)), setNamedColor (backColorName ([?e, ?w] ! 1)))"
    by blast
  then have "matchLine literalEngine \<lparr>filterList = [?e, ?w]\<rparr> ?line (InvalidColor, InvalidColor) =
          (True, NamedColor ''black'', NamedColor ''yellow'')"
    by (simp add: setNamedColor_def Filter_new_def)
  with w e show ?thesis by simp
qed

text \<open>
  Claim C8, as the code has it. \<open>hasMatch\<close> is a total function (it raises
  nothing) and returns what the engine's match reports: false for a pattern that
  does not compile, and for a pattern that compiles the engine's answer. The code
  has no case of its own for the empty pattern.
\<close>

theorem hasMatch_delegates:
  "(\<not> isValid E (regexp f) \<longrightarrow> hasMatch E f subject = False)
   \<and> (isValid E (regexp f) \<longrightarrow> hasMatch E f subject = exec E (regexp f) subject)"
  by (simp add: hasMatch_def match_hasMatch_def re_match_def)

theorem hasMatch_delegates_witness:
  "\<not> isValid \<lparr>isValid = (\<lambda>re. re_pattern re \<noteq> ''(''), exec = (\<lambda>re subject. True)\<rparr>
        (regexp (Filter_new ''('' False ''black'' ''white'' (- 1) (- 1)))
   \<and> hasMatch \<lparr>isValid = (\<lambda>re. re_pattern re \<noteq> ''(''), exec = (\<lambda>re subject. True)\<rparr>
        (Filter_new ''('' False ''black'' ''white'' (- 1) (- 1)) ''a (b'' = False
   \<and> isValid literalEngine (regexp (Filter_new ''b'' False ''black'' ''white'' (- 1) (- 1)))
   \<and> hasMatch literalEngine (Filter_new ''b'' False ''black'' ''white'' (- 1) (- 1)) ''abc'' = True"
  using hasMatch_delegates [where E = "\<lparr>isValid = (\<lambda>re. re_pattern re \<noteq> ''(''), exec = (\<lambda>re subject. True)\<rparr>"
          and f = "Filter_new ''('' False ''black'' ''white'' (- 1) (- 1)" and subject = "''a (b''"]
        hasMatch_delegates [where E = literalEngine
          and f = "Filter_new ''b'' False ''black'' ''white'' (- 1) (- 1)" and subject = "''abc''"]
  by (simp add: Filter_new_def literalEngine_def)

text \<open>
  The claim as stated fails for the empty pattern: with an engine that matches
  patterns literally, a filter whose pattern is empty matches the line "abc".
\<close>

theorem hasMatch_empty_pattern_counterexample:
  "pattern (Filter_new [] False ''black'' ''white'' (- 1) (- 1)) = []
   \<and> hasMatch literalEngine (Filter_new [] False ''black'' ''white'' (- 1) (- 1)) ''abc'' = True"
  by (simp add: pattern_def hasMatch_def match_hasMatch_def re_match_def literalEngine_def Filter_new_def)

text \<open>
  Claim C9, as the code has it. Filter equality compares the regular expression
  object (its pattern and its pattern options, so also case-sensitivity) and the
  two colour names. Two filters that differ only in \<open>enabled\<close>, \<open>origin\<close> or
  \<open>loaded_offset\<close> are equal; two filters that differ in case-sensitivity are
  not.
\<close>

theorem Filter_eq_compares:
  "Filter_eq a b =
     (pattern a = pattern b \<and> re_options (regexp a) = re_options (regexp b)
      \<and> foreColorName a = foreColorName b \<and> backColorName a = backColorName b)
   \<and> Filter_eq (a\<lparr>enabled := e, origin := og, loaded_offset := off\<rparr>) a
   \<and> (ignoreCase a \<noteq> ignoreCase b \<longrightarrow> \<not> Filter_eq a b)"
proof -
  have "regexp a = regexp b \<longleftrightarrow>
        re_pattern (regexp a) = re_pattern (regexp b) \<and> re_options (regexp a) = re_options (regexp b)"
    by (cases "regexp a"; cases "regexp b") auto
  then show ?thesis
    by (auto simp: Filter_eq_def pattern_def ignoreCase_def)
qed

theorem Filter_eq_compares_witness:
  "ignoreCase (Filter_new ''abc'' True ''black'' ''white'' 0 2)
     \<noteq> ignoreCase (Filter_new ''abc'' False ''black'' ''white'' 0 2)
   \<and> \<not> Filter_eq (Filter_new ''abc'' True ''black'' ''white'' 0 2)
                  (Filter_new ''abc'' False ''black'' ''white'' 0 2)
   \<and> Filter_eq ((Filter_new ''abc'' True ''black'' ''white'' 0 2)\<lparr>enabled := None, origin := - 1, loaded_offset := 7\<rparr>)
               (Filter_new ''abc'' True ''black'' ''white'' 0 2)"
proof -
  let ?a = "Filter_new ''abc'' True ''black'' ''white'' 0 2"
  let ?b = "Filter_new ''abc'' False ''black'' ''white'' 0 2"
  note t = Filter_eq_compares [where a = ?a and b = ?b and e = None and og = "- 1" and off = 7]
  have d: "ignoreCase ?a \<noteq> ignoreCase ?b"
    by (simp add: ignoreCase_def Filter_new_def getPatternOptions_def)
  from t d have n: "\<not> Filter_eq ?a ?b" by blast
  from t have e: "Filter_eq (?a\<lparr>enabled := None, origin := - 1, loaded_offset := 7\<rparr>) ?a" by blast
  from d n e show ?thesis by blast
qed

text \<open>
  The claim as stated fails for case-sensitivity: a filter and its copy with the
  case-insensitive option switched on are different filters.
\<close>

theorem Filter_eq_ignoreCase_counterexample:
  "pattern (setIgnoreCase True (Filter_new ''abc'' False ''black'' ''white'' 0 2))
     = pattern (Filter_new ''abc'' False ''black'' ''white'' 0 2)
   \<and> foreColorName (setIgnoreCase True (Filter_new ''abc'' False ''black'' ''white'' 0 2))
     = foreColorName (Filter_new ''abc'' False ''black'' ''white'' 0 2)
   \<and> backColorName (setIgnoreCase True (Filter_new ''abc'' False ''black'' ''white'' 0 2))
     = backColorName (Filter_new ''abc'' False ''black'' ''white'' 0 2)
   \<and> Filter_eq (setIgnoreCase True (Filter_new ''abc'' False ''black'' ''white'' 0 2))
               (Filter_new ''abc'' False ''black'' ''white'' 0 2) = False"
  by (auto simp: Filter_eq_def setIgnoreCase_def Filter_new_def getPatternOptions_def pattern_def)

subsection \<open>The references of the dialog\<close>

lemma length_update2 [simp]: "length (update2 xss i j v) = length xss"
  by (simp add: update2_def)

lemma length_nth_update2 [simp]: "length (update2 xss i j v ! k) = length (xss ! k)"
  by (cases "k = i"; cases "i < length xss") (simp_all add: update2_def list_update_beyond)

lemma nth_nth_update2:
  "k < length xss \<Longrightarrow> l < length (xss ! k) \<Longrightarrow>
   update2 xss i j v ! k ! l = (if k = i \<and> l = j then v else xss ! k ! l)"
  by (cases "k = i"; cases "l = j") (simp_all add: update2_def)

lemma nth_nth_update2_map:
  assumes "k < length xss" and "l < length (xss ! k)"
  shows "update2 (map (map g) (update2 xss i j v)) i j w ! k ! l =
           (if k = i \<and> l = j then w else g (xss ! k ! l))"
proof -
  have "update2 (map (map g) (update2 xss i j v)) i j w ! k ! l =
          (if k = i \<and> l = j then w else map (map g) (update2 xss i j v) ! k ! l)"
    using assms by (simp add: nth_nth_update2)
  moreover have "map (map g) (update2 xss i j v) ! k ! l = g (update2 xss i j v ! k ! l)"
    using assms by simp
  moreover have "update2 xss i j v ! k ! l = (if k = i \<and> l = j then v else xss ! k ! l)"
    using assms by (rule nth_nth_update2)
  ultimately show ?thesis by simp
qed

lemma at_Inr: "at xs i = Inr x \<longleftrightarrow> 0 \<le> i \<and> i < int (length xs) \<and> x = xs ! nat i"
  by (auto simp: at_def)

lemma getRef_InRefs:
  "getRef d (InRefs og pos) = Inr r \<longleftrightarrow>
     og < length (loadedFilterRefs d) \<and> pos < length (loadedFilterRefs d ! og) \<and> r = refAt d og pos"
  by (auto simp: getRef_def at_def refAt_def split: sum.splits)

lemma removeFilter_Inr:
  assumes "removeFilter d loc = Inr d'" and "getRef d loc = Inr r"
  shows "isActive r"
    and "filterList (filterSet d') = QList_removeAt (filter_index r) (filterList (filterSet d))"
    and "loadedFilterRefs d' =
           loadedFilterRefs
             (updRef loc (\<lambda>x. x\<lparr>filter_index := - 1\<rparr>)
               (d\<lparr>loadedFilterRefs :=
                   map (map (\<lambda>ref. if filter_index ref > filter_index r
                                    then ref\<lparr>filter_index := filter_index ref - 1\<rparr> else ref))
                       (loadedFilterRefs (updRef loc (\<lambda>x. x\<lparr>modified := False\<rparr>) d))\<rparr>))"
  using assms
  by (auto simp: removeFilter_def Let_def updRef_def split: sum.splits if_splits FilterRefLoc.splits)

text \<open>
  Claim C2. When \<open>removeFilter\<close> removes the working entry at index \<open>k\<close> (the
  \<open>filter_index\<close> of the reference it is given), every other reference whose
  index is greater than \<open>k\<close> has it decremented by one, every other reference
  whose index is at most \<open>k\<close> is unchanged, no reference changes its
  \<open>loaded_index\<close>, and the removed entry's own reference stays in the table with
  \<open>filter_index = -1\<close>; the table keeps its shape.
\<close>

theorem removeFilter_rank_shift:
  assumes "removeFilter d loc = Inr d'" and "getRef d loc = Inr r"
  shows "filterList (filterSet d') = QList_removeAt (filter_index r) (filterList (filterSet d))
     \<and> length (loadedFilterRefs d') = length (loadedFilterRefs d)
     \<and> (\<forall>og pos. og < length (loadedFilterRefs d) \<and> pos < length (loadedFilterRefs d ! og) \<longrightarrow>
          length (loadedFilterRefs d' ! og) = length (loadedFilterRefs d ! og)
          \<and> loaded_index (refAt d' og pos) = loaded_index (refAt d og pos)
          \<and> (loc = InRefs og pos \<longrightarrow> filter_index (refAt d' og pos) = - 1)
          \<and> (loc \<noteq> InRefs og pos \<and> filter_index (refAt d og pos) > filter_index r \<longrightarrow>
                filter_index (refAt d' og pos) = filter_index (refAt d og pos) - 1)
          \<and> (loc \<noteq> InRefs og pos \<and> filter_index (refAt d og pos) \<le> filter_index r \<longrightarrow>
                refAt d' og pos = refAt d og pos))"
proof -
  note res = removeFilter_Inr [OF assms]
  define dec :: "FilterRef \<Rightarrow> FilterRef" where "dec = (\<lambda>ref. if filter_index ref > filter_index r
                     then ref\<lparr>filter_index := filter_index ref - 1\<rparr> else ref)"
  have dec_loaded: "loaded_index (dec x) = loaded_index x" for x
    by (simp add: dec_def)
  show ?thesis
  proof (cases loc)
    case (Dummy x)
    with res show ?thesis
      by (auto simp: updRef_def refAt_def)
  next
    case (InRefs o1 p1)
    with assms(2) have rng: "o1 < length (loadedFilterRefs d)" "p1 < length (loadedFilterRefs d ! o1)"
      and r: "r = refAt d o1 p1"
      by (simp_all add: getRef_InRefs)
    define v where "v = (loadedFilterRefs d ! o1 ! p1)\<lparr>modified := False\<rparr>"
    define R2 where "R2 = map (map dec) (update2 (loadedFilterRefs d) o1 p1 v)"
    define w where "w = (R2 ! o1 ! p1)\<lparr>filter_index := - 1\<rparr>"
    have R3: "loadedFilterRefs d' = update2 (map (map dec) (update2 (loadedFilterRefs d) o1 p1 v)) o1 p1 w"
      using res(3) InRefs by (simp add: updRef_def dec_def v_def R2_def w_def)
    have len: "length (loadedFilterRefs d') = length (loadedFilterRefs d)"
      by (simp add: R3)
    have len2: "length (loadedFilterRefs d' ! og) = length (loadedFilterRefs d ! og)"
      if "og < length (loadedFilterRefs d)" for og
      using that by (simp add: R3)
    have pt: "loadedFilterRefs d' ! og ! pos =
               (if og = o1 \<and> pos = p1 then w else dec (loadedFilterRefs d ! og ! pos))"
      if "og < length (loadedFilterRefs d)" "pos < length (loadedFilterRefs d ! og)" for og pos
      unfolding R3 using that by (rule nth_nth_update2_map)
    have "R2 ! o1 ! p1 = dec v"
      using rng by (simp add: R2_def nth_nth_update2)
    then have w_loaded: "loaded_index w = loaded_index (loadedFilterRefs d ! o1 ! p1)"
      and w_index: "filter_index w = - 1"
      by (simp_all add: w_def dec_loaded v_def)
    have own_loaded: "loaded_index (loadedFilterRefs d' ! o1 ! p1) = loaded_index (loadedFilterRefs d ! o1 ! p1)"
      and own_index: "filter_index (loadedFilterRefs d' ! o1 ! p1) = - 1"
      using pt [OF rng] w_loaded w_index by simp_all
    have other: "loadedFilterRefs d' ! og ! pos = dec (loadedFilterRefs d ! og ! pos)"
      if "og < length (loadedFilterRefs d)" "pos < length (loadedFilterRefs d ! og)"
         "InRefs o1 p1 \<noteq> InRefs og pos" for og pos
      using pt [OF that(1,2)] that(3) by auto
    show ?thesis
    proof (intro conjI allI impI)
      show "filterList (filterSet d') = QList_removeAt (filter_index r) (filterList (filterSet d))"
        by (rule res(2))
      show "length (loadedFilterRefs d') = length (loadedFilterRefs d)"
        by (rule len)
    next
      fix og pos
      assume a: "og < length (loadedFilterRefs d) \<and> pos < length (loadedFilterRefs d ! og)"
      show "length (loadedFilterRefs d' ! og) = length (loadedFilterRefs d ! og)"
        using a len2 by blast
      show "loaded_index (refAt d' og pos) = loaded_index (refAt d og pos)"
      proof (cases "og = o1 \<and> pos = p1")
        case True
        then show ?thesis using own_loaded by (simp add: refAt_def)
      next
        case False
        then show ?thesis using other [of og pos] a by (auto simp: refAt_def dec_loaded)
      qed
    next
      fix og pos
      assume "og < length (loadedFilterRefs d) \<and> pos < length (loadedFilterRefs d ! og)"
        and "loc = InRefs og pos"
      then show "filter_index (refAt d' og pos) = - 1"
        using own_index InRefs by (simp add: refAt_def)
    next
      fix og pos
      assume a: "og < length (loadedFilterRefs d) \<and> pos < length (loadedFilterRefs d ! og)"
        and b: "loc \<noteq> InRefs og pos \<and> filter_index (refAt d og pos) > filter_index r"
      then have "refAt d' og pos = dec (refAt d og pos)"
        using other [of og pos] InRefs by (simp add: refAt_def)
      with b show "filter_index (refAt d' og pos) = filter_index (refAt d og pos) - 1"
        by (simp add: dec_def)
    next
      fix og pos
      assume a: "og < length (loadedFilterRefs d) \<and> pos < length (loadedFilterRefs d ! og)"
        and b: "loc \<noteq> InRefs og pos \<and> filter_index (refAt d og pos) \<le> filter_index r"
      then have "refAt d' og pos = dec (refAt d og pos)"
        using other [of og pos] InRefs by (simp add: refAt_def)
      with b show "refAt d' og pos = refAt d og pos"
        by (simp add: dec_def)
    qed
  qed
qed


lemma findLoop_Inr:
  "findLoadedFilterRef_loop rs index n = Inr p \<Longrightarrow>
   \<exists>k. p = n + k \<and> k < length rs \<and> filter_index (rs ! k) = index
       \<and> (\<forall>j < k. filter_index (rs ! j) \<noteq> index)"
proof (induction rs arbitrary: n)
  case Nil
  then show ?case by simp
next
  case (Cons r rs)
  show ?case
  proof (cases "filter_index r = index")
    case True
    with Cons.prems have "p = n" by simp
    with True show ?thesis by (intro exI [of _ 0]) simp
  next
    case False
    with Cons.prems have "findLoadedFilterRef_loop rs index (Suc n) = Inr p" by simp
    from Cons.IH [OF this] obtain k where k: "p = Suc n + k" "k < length rs"
      "filter_index (rs ! k) = index" "\<forall>j < k. filter_index (rs ! j) \<noteq> index"
      by blast
    have "\<forall>j < Suc k. filter_index ((r # rs) ! j) \<noteq> index"
      using False k(4) by (auto simp: nth_Cons split: nat.splits)
    with k show ?thesis by (intro exI [of _ "Suc k"]) simp
  qed
qed

lemma findLoop_first:
  "k < length rs \<Longrightarrow> filter_index (rs ! k) = index \<Longrightarrow> \<forall>j < k. filter_index (rs ! j) \<noteq> index \<Longrightarrow>
   findLoadedFilterRef_loop rs index n = Inr (n + k)"
proof (induction rs arbitrary: n k)
  case Nil
  then show ?case by simp
next
  case (Cons r rs)
  show ?case
  proof (cases k)
    case 0
    with Cons.prems show ?thesis by simp
  next
    case (Suc k')
    have nf: "filter_index r \<noteq> index"
      using Cons.prems(3) Suc by (metis nth_Cons_0 zero_less_Suc)
    have later: "\<forall>j < k'. filter_index (rs ! j) \<noteq> index"
      using Cons.prems(3) Suc by (metis Suc_less_eq nth_Cons_Suc)
    have "findLoadedFilterRef_loop rs index (Suc n) = Inr (Suc n + k')"
      using Cons.IH [of k' "Suc n"] Cons.prems(1,2) Suc later by simp
    with nf Suc show ?thesis by simp
  qed
qed

lemma findLoadedFilterRef_Inr:
  "findLoadedFilterRef d og index = Inr loc \<Longrightarrow>
   0 \<le> og \<and> og < int (length (loadedFilterRefs d))
   \<and> (\<exists>k. loc = InRefs (nat og) k \<and> k < length (loadedFilterRefs d ! nat og)
          \<and> filter_index (loadedFilterRefs d ! nat og ! k) = index
          \<and> (\<forall>j < k. filter_index (loadedFilterRefs d ! nat og ! j) \<noteq> index))"
  by (auto simp: findLoadedFilterRef_def at_def split: sum.splits if_splits dest!: findLoop_Inr)

lemma findLoadedFilterRef_first:
  "0 \<le> og \<Longrightarrow> og < int (length (loadedFilterRefs d)) \<Longrightarrow> k < length (loadedFilterRefs d ! nat og) \<Longrightarrow>
   filter_index (loadedFilterRefs d ! nat og ! k) = index \<Longrightarrow>
   \<forall>j < k. filter_index (loadedFilterRefs d ! nat og ! j) \<noteq> index \<Longrightarrow>
   findLoadedFilterRef d og index = Inr (InRefs (nat og) k)"
  using findLoop_first [of k "loadedFilterRefs d ! nat og" index 0]
  by (simp add: findLoadedFilterRef_def at_def)

lemma findLoadedFilterRef_filterSet [simp]:
  "findLoadedFilterRef (d\<lparr>filterSet := fs\<rparr>) og index = findLoadedFilterRef d og index"
  by (simp add: findLoadedFilterRef_def)

lemma QList_move_nth_to:
  "from < length xs \<Longrightarrow> to < length xs \<Longrightarrow> QList_move from to xs ! to = xs ! from"
  by (simp add: QList_move_def Let_def nth_append min_def)

lemma length_QList_move [simp]:
  "from < length xs \<Longrightarrow> to < length xs \<Longrightarrow> length (QList_move from to xs) = length xs"
  by (auto simp: QList_move_def Let_def min_def)


lemma findRefIfLoaded_filterSet [simp]:
  "findRefIfLoaded (d\<lparr>filterSet := fs\<rparr>) og index = findRefIfLoaded d og index"
  by (simp add: findRefIfLoaded_def)

lemma setFilterIndexIf_filterSet [simp]:
  "filterSet (setFilterIndexIf ref v d) = filterSet d"
  by (simp add: setFilterIndexIf_def updRef_def split: option.splits FilterRefLoc.splits)

lemma moveFilter_Inr:
  assumes "moveFilter d from to = Inr d'"
  shows "0 \<le> from \<and> from < int (length (filterList (filterSet d)))"
    and "0 \<le> to \<and> to < int (length (filterList (filterSet d)))"
    and "filterList (filterSet d') = QList_move (nat from) (nat to) (filterList (filterSet d))"
    and "\<exists>from_ref to_ref.
           findRefIfLoaded d (origin (filterList (filterSet d) ! nat from)) from = Inr from_ref
         \<and> findRefIfLoaded d (origin (filterList (filterSet d) ! nat to)) to = Inr to_ref
         \<and> loadedFilterRefs d' = loadedFilterRefs (setFilterIndexIf to_ref from (setFilterIndexIf from_ref to d))"
proof -
  from assms obtain ff ft where ff: "at (filterList (filterSet d)) from = Inr ff"
    and ft: "at (filterList (filterSet d)) to = Inr ft"
    by (auto simp: moveFilter_def split: sum.splits)
  from ff show "0 \<le> from \<and> from < int (length (filterList (filterSet d)))"
    by (simp add: at_Inr)
  from ft show "0 \<le> to \<and> to < int (length (filterList (filterSet d)))"
    by (simp add: at_Inr)
  have ffv: "ff = filterList (filterSet d) ! nat from" and ftv: "ft = filterList (filterSet d) ! nat to"
    using ff ft by (simp_all add: at_Inr)
  from assms ff ft obtain from_ref to_ref where
    fr: "findRefIfLoaded d (origin ff) from = Inr from_ref"
    and tr: "findRefIfLoaded d (origin ft) to = Inr to_ref"
    and d': "d' = setFilterIndexIf to_ref from (setFilterIndexIf from_ref to
               (d\<lparr>filterSet := \<lparr>filterList = QList_move (nat from) (nat to) (filterList (filterSet d))\<rparr>\<rparr>))"
    by (auto simp: moveFilter_def Let_def split: sum.splits)
  from d' show "filterList (filterSet d') = QList_move (nat from) (nat to) (filterList (filterSet d))"
    by simp
  have "loadedFilterRefs d' = loadedFilterRefs (setFilterIndexIf to_ref from (setFilterIndexIf from_ref to d))"
    unfolding d'
    by (simp add: setFilterIndexIf_def updRef_def split: option.splits FilterRefLoc.splits)
  with fr tr show "\<exists>from_ref to_ref.
           findRefIfLoaded d (origin (filterList (filterSet d) ! nat from)) from = Inr from_ref
         \<and> findRefIfLoaded d (origin (filterList (filterSet d) ! nat to)) to = Inr to_ref
         \<and> loadedFilterRefs d' = loadedFilterRefs (setFilterIndexIf to_ref from (setFilterIndexIf from_ref to d))"
    unfolding ffv ftv by blast
qed


lemma findRefIfLoaded_Inr:
  assumes "findRefIfLoaded d og index = Inr ref"
  shows "(og < 0 \<and> ref = None)
       \<or> (0 \<le> og \<and> og < int (length (loadedFilterRefs d))
          \<and> (\<exists>k. ref = Some (InRefs (nat og) k) \<and> k < length (loadedFilterRefs d ! nat og)
                 \<and> filter_index (loadedFilterRefs d ! nat og ! k) = index
                 \<and> (\<forall>j < k. filter_index (loadedFilterRefs d ! nat og ! j) \<noteq> index)))"
proof (cases "og \<ge> 0")
  case False
  with assms show ?thesis by (simp add: findRefIfLoaded_def)
next
  case True
  with assms obtain loc where loc: "findLoadedFilterRef d og index = Inr loc" "ref = Some loc"
    by (auto simp: findRefIfLoaded_def split: sum.splits)
  from findLoadedFilterRef_Inr [OF loc(1)] loc(2) True show ?thesis by blast
qed

lemma findRefIfLoaded_find:
  "og \<ge> 0 \<Longrightarrow> findRefIfLoaded d og index = Inr ref \<Longrightarrow>
   \<exists>loc. ref = Some loc \<and> findLoadedFilterRef d og index = Inr loc"
  by (auto simp: findRefIfLoaded_def split: sum.splits)

text \<open>The references after the two guarded writes of \<open>moveFilter\<close>, one by one.\<close>

lemma setFilterIndexIf_twice:
  assumes fr: "from_ref = None \<or> (\<exists>o1 p1. from_ref = Some (InRefs o1 p1)
                  \<and> o1 < length (loadedFilterRefs d) \<and> p1 < length (loadedFilterRefs d ! o1))"
    and tr: "to_ref = None \<or> (\<exists>o2 p2. to_ref = Some (InRefs o2 p2)
                  \<and> o2 < length (loadedFilterRefs d) \<and> p2 < length (loadedFilterRefs d ! o2))"
    and d': "R' = loadedFilterRefs (setFilterIndexIf to_ref b (setFilterIndexIf from_ref a d))"
  shows "length R' = length (loadedFilterRefs d)"
    and "og < length (loadedFilterRefs d) \<Longrightarrow> length (R' ! og) = length (loadedFilterRefs d ! og)"
    and "og < length (loadedFilterRefs d) \<Longrightarrow> pos < length (loadedFilterRefs d ! og) \<Longrightarrow>
         R' ! og ! pos =
           (if to_ref = Some (InRefs og pos) then (loadedFilterRefs d ! og ! pos)\<lparr>filter_index := b\<rparr>
            else if from_ref = Some (InRefs og pos) then (loadedFilterRefs d ! og ! pos)\<lparr>filter_index := a\<rparr>
            else loadedFilterRefs d ! og ! pos)"
proof -
  show "length R' = length (loadedFilterRefs d)"
    using fr tr unfolding d'
    by (auto simp: setFilterIndexIf_def updRef_def)
  show "length (R' ! og) = length (loadedFilterRefs d ! og)" if "og < length (loadedFilterRefs d)"
    using fr tr that unfolding d'
    by (auto simp: setFilterIndexIf_def updRef_def)
  show "R' ! og ! pos =
           (if to_ref = Some (InRefs og pos) then (loadedFilterRefs d ! og ! pos)\<lparr>filter_index := b\<rparr>
            else if from_ref = Some (InRefs og pos) then (loadedFilterRefs d ! og ! pos)\<lparr>filter_index := a\<rparr>
            else loadedFilterRefs d ! og ! pos)"
    if rng: "og < length (loadedFilterRefs d)" "pos < length (loadedFilterRefs d ! og)"
  proof -
    consider (nn) "from_ref = None" "to_ref = None"
      | (sn) o1 p1 where "from_ref = Some (InRefs o1 p1)" "to_ref = None"
      | (ns) o2 p2 where "from_ref = None" "to_ref = Some (InRefs o2 p2)"
          "o2 < length (loadedFilterRefs d)" "p2 < length (loadedFilterRefs d ! o2)"
      | (ss) o1 p1 o2 p2 where "from_ref = Some (InRefs o1 p1)" "to_ref = Some (InRefs o2 p2)"
          "o2 < length (loadedFilterRefs d)" "p2 < length (loadedFilterRefs d ! o2)"
      using fr tr by blast
    then show ?thesis
    proof cases
      case nn
      then show ?thesis unfolding d' by (simp add: setFilterIndexIf_def)
    next
      case sn
      then show ?thesis unfolding d' using rng
        by (cases "og = o1"; cases "pos = p1")
           (simp_all add: setFilterIndexIf_def updRef_def nth_nth_update2)
    next
      case ns
      then show ?thesis unfolding d' using rng
        by (cases "og = o2"; cases "pos = p2")
           (simp_all add: setFilterIndexIf_def updRef_def nth_nth_update2)
    next
      case ss
      then show ?thesis unfolding d' using rng
        by (cases "og = o1"; cases "pos = p1"; cases "og = o2"; cases "pos = p2")
           (simp_all add: setFilterIndexIf_def updRef_def nth_nth_update2)
    qed
  qed
qed


text \<open>
  Claim C3. \<open>moveFilter\<close> looks both references up in the table as it is before
  any write: the reference found for \<open>from\<close> gets the index \<open>to\<close>, the one
  found for \<open>to\<close> gets the index \<open>from\<close>, and no other reference changes. The
  entry now at index \<open>to\<close> is the entry that was at \<open>from\<close>, with its origin
  and offset, and when the table is consistent the lookup of that entry at \<open>to\<close>
  finds the very reference that the lookup at \<open>from\<close> found before, whose
  \<open>loaded_index\<close> is unchanged.
\<close>

theorem moveFilter_swaps_references:
  assumes "moveFilter d from to = Inr d'"
  shows "0 \<le> from \<and> from < int (length (filterList (filterSet d)))
     \<and> 0 \<le> to \<and> to < int (length (filterList (filterSet d)))
     \<and> filterList (filterSet d') = QList_move (nat from) (nat to) (filterList (filterSet d))
     \<and> filterList (filterSet d') ! nat to = filterList (filterSet d) ! nat from
     \<and> length (loadedFilterRefs d') = length (loadedFilterRefs d)
     \<and> (origin (filterList (filterSet d) ! nat from) \<ge> 0 \<longrightarrow>
          (\<exists>og pos. findLoadedFilterRef d (origin (filterList (filterSet d) ! nat from)) from = Inr (InRefs og pos)
             \<and> filter_index (refAt d og pos) = from
             \<and> refAt d' og pos = (refAt d og pos)\<lparr>filter_index := to\<rparr>))
     \<and> (origin (filterList (filterSet d) ! nat to) \<ge> 0 \<longrightarrow>
          (\<exists>og pos. findLoadedFilterRef d (origin (filterList (filterSet d) ! nat to)) to = Inr (InRefs og pos)
             \<and> filter_index (refAt d og pos) = to
             \<and> refAt d' og pos = (refAt d og pos)\<lparr>filter_index := from\<rparr>))
     \<and> (\<forall>og pos. og < length (loadedFilterRefs d) \<and> pos < length (loadedFilterRefs d ! og)
           \<and> findRefIfLoaded d (origin (filterList (filterSet d) ! nat from)) from \<noteq> Inr (Some (InRefs og pos))
           \<and> findRefIfLoaded d (origin (filterList (filterSet d) ! nat to)) to \<noteq> Inr (Some (InRefs og pos))
           \<longrightarrow> refAt d' og pos = refAt d og pos)
     \<and> (refsConsistent d \<and> origin (filterList (filterSet d) ! nat from) \<ge> 0 \<longrightarrow>
          findLoadedFilterRef d' (origin (filterList (filterSet d') ! nat to)) to
            = findLoadedFilterRef d (origin (filterList (filterSet d) ! nat from)) from)"
proof -
  let ?fl = "filterList (filterSet d)"
  let ?R = "loadedFilterRefs d"
  let ?fo = "origin (?fl ! nat from)"
  let ?to = "origin (?fl ! nat to)"
  note res = moveFilter_Inr [OF assms]
  from res(4) obtain from_ref to_ref where
    fr: "findRefIfLoaded d ?fo from = Inr from_ref"
    and tr: "findRefIfLoaded d ?to to = Inr to_ref"
    and R': "loadedFilterRefs d' = loadedFilterRefs (setFilterIndexIf to_ref from (setFilterIndexIf from_ref to d))"
    by blast
  note frI = findRefIfLoaded_Inr [OF fr]
  note trI = findRefIfLoaded_Inr [OF tr]
  have frr: "from_ref = None \<or> (\<exists>o1 p1. from_ref = Some (InRefs o1 p1)
                  \<and> o1 < length ?R \<and> p1 < length (?R ! o1))"
    using frI by auto
  have trr: "to_ref = None \<or> (\<exists>o2 p2. to_ref = Some (InRefs o2 p2)
                  \<and> o2 < length ?R \<and> p2 < length (?R ! o2))"
    using trI by auto
  note pw = setFilterIndexIf_twice [OF frr trr R']
  have rng: "nat from < length ?fl" "nat to < length ?fl"
    using res(1,2) by auto
  have entry: "filterList (filterSet d') ! nat to = ?fl ! nat from"
    using res(3) rng by (simp add: QList_move_nth_to)
  have from_part: "\<exists>og pos. findLoadedFilterRef d ?fo from = Inr (InRefs og pos)
             \<and> filter_index (refAt d og pos) = from
             \<and> refAt d' og pos = (refAt d og pos)\<lparr>filter_index := to\<rparr>"
    if pos: "?fo \<ge> 0"
  proof -
    from frI pos obtain k where k: "from_ref = Some (InRefs (nat ?fo) k)" "nat ?fo < length ?R"
      "k < length (?R ! nat ?fo)" "filter_index (?R ! nat ?fo ! k) = from"
      by auto
    have f: "findLoadedFilterRef d ?fo from = Inr (InRefs (nat ?fo) k)"
      using findRefIfLoaded_find [OF pos fr] k(1) by auto
    have same: "from = to" if "to_ref = Some (InRefs (nat ?fo) k)"
      using trI that k(4) by auto
    have "refAt d' (nat ?fo) k = (refAt d (nat ?fo) k)\<lparr>filter_index := to\<rparr>"
      using pw(3) [OF k(2,3)] k(1) same by (auto simp: refAt_def)
    with f k(4) show ?thesis by (auto simp: refAt_def)
  qed
  have to_part: "\<exists>og pos. findLoadedFilterRef d ?to to = Inr (InRefs og pos)
             \<and> filter_index (refAt d og pos) = to
             \<and> refAt d' og pos = (refAt d og pos)\<lparr>filter_index := from\<rparr>"
    if pos: "?to \<ge> 0"
  proof -
    from trI pos obtain k where k: "to_ref = Some (InRefs (nat ?to) k)" "nat ?to < length ?R"
      "k < length (?R ! nat ?to)" "filter_index (?R ! nat ?to ! k) = to"
      by auto
    have f: "findLoadedFilterRef d ?to to = Inr (InRefs (nat ?to) k)"
      using findRefIfLoaded_find [OF pos tr] k(1) by auto
    have "refAt d' (nat ?to) k = (refAt d (nat ?to) k)\<lparr>filter_index := from\<rparr>"
      using pw(3) [OF k(2,3)] k(1) by (auto simp: refAt_def)
    with f k(4) show ?thesis by (auto simp: refAt_def)
  qed
  have others: "refAt d' og pos = refAt d og pos"
    if "og < length ?R \<and> pos < length (?R ! og)
        \<and> findRefIfLoaded d ?fo from \<noteq> Inr (Some (InRefs og pos))
        \<and> findRefIfLoaded d ?to to \<noteq> Inr (Some (InRefs og pos))" for og pos
    using pw(3) [of og pos] that fr tr by (auto simp: refAt_def)
  have lookup: "findLoadedFilterRef d' (origin (filterList (filterSet d') ! nat to)) to
                  = findLoadedFilterRef d ?fo from"
    if inv: "refsConsistent d" and pos: "?fo \<ge> 0"
  proof -
    from frI pos obtain k where k: "from_ref = Some (InRefs (nat ?fo) k)" "nat ?fo < length ?R"
      "k < length (?R ! nat ?fo)" "filter_index (?R ! nat ?fo ! k) = from"
      "\<forall>j < k. filter_index (?R ! nat ?fo ! j) \<noteq> from"
      by auto
    have f: "findLoadedFilterRef d ?fo from = Inr (InRefs (nat ?fo) k)"
      using findRefIfLoaded_find [OF pos fr] k(1) by auto
    have same: "from = to" if "to_ref = Some (InRefs (nat ?fo) k)"
      using trI that k(4) by auto
    have at_k: "filter_index (loadedFilterRefs d' ! nat ?fo ! k) = to"
      using pw(3) [OF k(2,3)] k(1) same by auto
    have before: "filter_index (loadedFilterRefs d' ! nat ?fo ! j) \<noteq> to" if j: "j < k" for j
    proof
      assume eq: "filter_index (loadedFilterRefs d' ! nat ?fo ! j) = to"
      have jr: "j < length (?R ! nat ?fo)" using j k(3) by simp
      have nfrom: "from_ref \<noteq> Some (InRefs (nat ?fo) j)" using k(1) j by simp
      show False
      proof (cases "to_ref = Some (InRefs (nat ?fo) j)")
        case True
        then have "filter_index (loadedFilterRefs d' ! nat ?fo ! j) = from"
          using pw(3) [OF k(2) jr] by simp
        with eq have ft: "from = to" by simp
        from True trI have "filter_index (?R ! nat ?fo ! j) = to" by auto
        with ft k(5) j show False by auto
      next
        case False
        then have unchanged: "loadedFilterRefs d' ! nat ?fo ! j = ?R ! nat ?fo ! j"
          using pw(3) [OF k(2) jr] nfrom by simp
        with eq have old: "filter_index (?R ! nat ?fo ! j) = to" by simp
        have act: "isActive (?R ! nat ?fo ! j)"
          using old res(2) by (simp add: isActive_def)
        from inv k(2) jr act
        have og: "origin (?fl ! nat (filter_index (?R ! nat ?fo ! j))) = int (nat ?fo)"
          and uniq: "\<forall>j' < length (?R ! nat ?fo).
                 filter_index (?R ! nat ?fo ! j') = filter_index (?R ! nat ?fo ! j) \<longrightarrow> j' = j"
          unfolding refsConsistent_def by blast+
        from og old pos have too: "?to = ?fo" by simp
        with pos trI obtain k2 where k2: "to_ref = Some (InRefs (nat ?fo) k2)"
          "k2 < length (?R ! nat ?fo)" "filter_index (?R ! nat ?fo ! k2) = to"
          by auto
        from uniq k2(2,3) old have "k2 = j" by simp
        with k2(1) False show False by simp
      qed
    qed
    have len: "length (loadedFilterRefs d') = length ?R"
      and len2: "length (loadedFilterRefs d' ! nat ?fo) = length (?R ! nat ?fo)"
      using pw(1) pw(2) [OF k(2)] by simp_all
    have lt: "?fo < int (length (loadedFilterRefs d'))"
      using k(2) pos len by linarith
    have "findLoadedFilterRef d' ?fo to = Inr (InRefs (nat ?fo) k)"
    proof (rule findLoadedFilterRef_first [OF pos lt])
      show "k < length (loadedFilterRefs d' ! nat ?fo)" using k(3) len2 by simp
      show "filter_index (loadedFilterRefs d' ! nat ?fo ! k) = to" by (rule at_k)
      show "\<forall>j < k. filter_index (loadedFilterRefs d' ! nat ?fo ! j) \<noteq> to"
        using before by blast
    qed
    with f entry show ?thesis by simp
  qed
  from res(1,2,3) entry pw(1) from_part to_part others lookup show ?thesis
    by blast
qed

subsection \<open>The example dialog\<close>

lemma exampleDialog_refs:
  "loadedFilterRefs exampleDialog =
     [[\<lparr>loaded_index = 0, filter_index = 0, modified = False\<rparr>,
       \<lparr>loaded_index = 1, filter_index = 1, modified = False\<rparr>]]"
  by (simp add: exampleDialog_def)

lemma exampleDialog_filters:
  "filterList (filterSet exampleDialog) =
        [Filter_new ''ERROR'' False ''black'' ''red'' 0 0,
         Filter_new ''WARN'' False ''black'' ''yellow'' 0 1,
         Filter_new ''New Filter'' False ''black'' ''white'' (- 1) (- 1)]"
  by (simp add: exampleDialog_def)

lemma Filter_new_sel [simp]:
  "origin (Filter_new p i f b og off) = og"
  "loaded_offset (Filter_new p i f b og off) = off"
  "pattern (Filter_new p i f b og off) = p"
  "foreColorName (Filter_new p i f b og off) = f"
  "backColorName (Filter_new p i f b og off) = b"
  by (simp_all add: Filter_new_def pattern_def)

theorem removeFilter_rank_shift_witness:
  "getRef exampleDialog (InRefs 0 0) = Inr \<lparr>loaded_index = 0, filter_index = 0, modified = False\<rparr>
   \<and> (\<exists>d'. removeFilter exampleDialog (InRefs 0 0) = Inr d'
          \<and> map pattern (filterList (filterSet d')) = [''WARN'', ''New Filter'']
          \<and> length (loadedFilterRefs d') = 1 \<and> length (loadedFilterRefs d' ! 0) = 2
          \<and> loaded_index (refAt d' 0 0) = 0 \<and> filter_index (refAt d' 0 0) = - 1
          \<and> loaded_index (refAt d' 0 1) = 1 \<and> filter_index (refAt d' 0 1) = 0)"
proof -
  let ?r = "\<lparr>loaded_index = 0, filter_index = 0, modified = False\<rparr>"
  have g: "getRef exampleDialog (InRefs 0 0) = Inr ?r"
    by (simp add: getRef_def at_def exampleDialog_refs)
  have "\<exists>d'. removeFilter exampleDialog (InRefs 0 0) = Inr d'"
    by (simp add: removeFilter_def g isActive_def Let_def at_def exampleDialog_refs
        exampleDialog_filters updRef_def update2_def)
  then obtain d' where d': "removeFilter exampleDialog (InRefs 0 0) = Inr d'" by blast
  note t = removeFilter_rank_shift [OF d' g]
  have fl: "map pattern (filterList (filterSet d')) = [''WARN'', ''New Filter'']"
    using t by (simp add: QList_removeAt_def exampleDialog_filters)
  from t have len: "length (loadedFilterRefs d') = 1"
    by (simp add: exampleDialog_refs)
  from t have all: "\<And>og pos. og < length (loadedFilterRefs exampleDialog) \<and> pos < length (loadedFilterRefs exampleDialog ! og) \<Longrightarrow>
          length (loadedFilterRefs d' ! og) = length (loadedFilterRefs exampleDialog ! og)
          \<and> loaded_index (refAt d' og pos) = loaded_index (refAt exampleDialog og pos)
          \<and> (InRefs 0 0 = InRefs og pos \<longrightarrow> filter_index (refAt d' og pos) = - 1)
          \<and> (InRefs 0 0 \<noteq> InRefs og pos \<and> filter_index (refAt exampleDialog og pos) > filter_index ?r \<longrightarrow>
                filter_index (refAt d' og pos) = filter_index (refAt exampleDialog og pos) - 1)
          \<and> (InRefs 0 0 \<noteq> InRefs og pos \<and> filter_index (refAt exampleDialog og pos) \<le> filter_index ?r \<longrightarrow>
                refAt d' og pos = refAt exampleDialog og pos)"
    by blast
  have at0: "length (loadedFilterRefs d' ! 0) = 2
      \<and> loaded_index (refAt d' 0 0) = 0 \<and> filter_index (refAt d' 0 0) = - 1"
    using all [of 0 0] by (simp add: refAt_def exampleDialog_refs)
  have at1: "loaded_index (refAt d' 0 1) = 1 \<and> filter_index (refAt d' 0 1) = 0"
    using all [of 0 1] by (simp add: refAt_def exampleDialog_refs)
  have "removeFilter exampleDialog (InRefs 0 0) = Inr d'
          \<and> map pattern (filterList (filterSet d')) = [''WARN'', ''New Filter'']
          \<and> length (loadedFilterRefs d') = 1 \<and> length (loadedFilterRefs d' ! 0) = 2
          \<and> loaded_index (refAt d' 0 0) = 0 \<and> filter_index (refAt d' 0 0) = - 1
          \<and> loaded_index (refAt d' 0 1) = 1 \<and> filter_index (refAt d' 0 1) = 0"
    using d' fl len at0 at1 by simp
  then have "\<exists>d'. removeFilter exampleDialog (InRefs 0 0) = Inr d'
          \<and> map pattern (filterList (filterSet d')) = [''WARN'', ''New Filter'']
          \<and> length (loadedFilterRefs d') = 1 \<and> length (loadedFilterRefs d' ! 0) = 2
          \<and> loaded_index (refAt d' 0 0) = 0 \<and> filter_index (refAt d' 0 0) = - 1
          \<and> loaded_index (refAt d' 0 1) = 1 \<and> filter_index (refAt d' 0 1) = 0"
    by (rule exI)
  with g show ?thesis by (rule conjI)
qed


lemma exampleDialog_consistent: "refsConsistent exampleDialog"
  unfolding refsConsistent_def exampleDialog_refs exampleDialog_filters
  by (simp add: isActive_def less_Suc_eq nth_Cons' all_conj_distrib) 


theorem moveFilter_swaps_references_witness:
  "refsConsistent exampleDialog
   \<and> origin (filterList (filterSet exampleDialog) ! nat 0) \<ge> 0
   \<and> origin (filterList (filterSet exampleDialog) ! nat 1) \<ge> 0
   \<and> findLoadedFilterRef exampleDialog 0 0 = Inr (InRefs 0 0)
   \<and> findLoadedFilterRef exampleDialog 0 1 = Inr (InRefs 0 1)
   \<and> (\<exists>d'. moveFilter exampleDialog 0 1 = Inr d'
          \<and> map pattern (filterList (filterSet d')) = [''WARN'', ''ERROR'', ''New Filter'']
          \<and> loaded_offset (filterList (filterSet d') ! 1) = 0
          \<and> refAt d' 0 0 = \<lparr>loaded_index = 0, filter_index = 1, modified = False\<rparr>
          \<and> refAt d' 0 1 = \<lparr>loaded_index = 1, filter_index = 0, modified = False\<rparr>
          \<and> findLoadedFilterRef d' 0 1 = Inr (InRefs 0 0))"
proof -
  let ?fl = "filterList (filterSet exampleDialog)"
  have o0: "origin (?fl ! nat 0) = 0" and o1: "origin (?fl ! nat 1) = 0"
    by (simp_all add: exampleDialog_filters)
  have f0: "findLoadedFilterRef exampleDialog 0 0 = Inr (InRefs 0 0)"
    and f1: "findLoadedFilterRef exampleDialog 0 1 = Inr (InRefs 0 1)"
    by (simp_all add: findLoadedFilterRef_def at_def exampleDialog_refs)
  have "\<exists>d'. moveFilter exampleDialog 0 1 = Inr d'"
    by (simp add: moveFilter_def at_def exampleDialog_filters findRefIfLoaded_def
          findLoadedFilterRef_def exampleDialog_refs)
  then obtain d' where d': "moveFilter exampleDialog 0 1 = Inr d'" by (rule exE)
  note t = moveFilter_swaps_references [OF d']
  have mv: "filterList (filterSet d') = QList_move (nat 0) (nat 1) ?fl"
    by (insert t, elim conjE, assumption)
  have ent: "filterList (filterSet d') ! nat 1 = ?fl ! nat 0"
    by (insert t, elim conjE, assumption)
  have fromc: "origin (?fl ! nat 0) \<ge> 0 \<longrightarrow>
          (\<exists>og pos. findLoadedFilterRef exampleDialog (origin (?fl ! nat 0)) 0 = Inr (InRefs og pos)
             \<and> filter_index (refAt exampleDialog og pos) = 0
             \<and> refAt d' og pos = (refAt exampleDialog og pos)\<lparr>filter_index := 1\<rparr>)"
    by (insert t, elim conjE, assumption)
  have toc: "origin (?fl ! nat 1) \<ge> 0 \<longrightarrow>
          (\<exists>og pos. findLoadedFilterRef exampleDialog (origin (?fl ! nat 1)) 1 = Inr (InRefs og pos)
             \<and> filter_index (refAt exampleDialog og pos) = 1
             \<and> refAt d' og pos = (refAt exampleDialog og pos)\<lparr>filter_index := 0\<rparr>)"
    by (insert t, elim conjE, assumption)
  have lkc: "refsConsistent exampleDialog \<and> origin (?fl ! nat 0) \<ge> 0 \<longrightarrow>
          findLoadedFilterRef d' (origin (filterList (filterSet d') ! nat 1)) 1
            = findLoadedFilterRef exampleDialog (origin (?fl ! nat 0)) 0"
    by (insert t, elim conjE, assumption)
  have fl: "map pattern (filterList (filterSet d')) = [''WARN'', ''ERROR'', ''New Filter'']"
    unfolding mv by (simp add: QList_move_def exampleDialog_filters)
  have off: "loaded_offset (filterList (filterSet d') ! 1) = 0"
    using ent by (simp add: exampleDialog_filters)
  have p0: "origin (?fl ! nat 0) \<ge> 0" and p1: "origin (?fl ! nat 1) \<ge> 0"
    by (simp_all add: exampleDialog_filters)
  from fromc p0 have "\<exists>og pos. findLoadedFilterRef exampleDialog (origin (?fl ! nat 0)) 0 = Inr (InRefs og pos)
             \<and> filter_index (refAt exampleDialog og pos) = 0
             \<and> refAt d' og pos = (refAt exampleDialog og pos)\<lparr>filter_index := 1\<rparr>"
    by (rule mp)
  then obtain og pos where a: "findLoadedFilterRef exampleDialog (origin (?fl ! nat 0)) 0 = Inr (InRefs og pos)"
    and b: "refAt d' og pos = (refAt exampleDialog og pos)\<lparr>filter_index := 1\<rparr>"
    by auto
  from a have "og = 0 \<and> pos = 0" unfolding o0 f0 by simp
  with b have r0: "refAt d' 0 0 = \<lparr>loaded_index = 0, filter_index = 1, modified = False\<rparr>"
    by (simp add: refAt_def exampleDialog_refs)
  from toc p1 have "\<exists>og pos. findLoadedFilterRef exampleDialog (origin (?fl ! nat 1)) 1 = Inr (InRefs og pos)
             \<and> filter_index (refAt exampleDialog og pos) = 1
             \<and> refAt d' og pos = (refAt exampleDialog og pos)\<lparr>filter_index := 0\<rparr>"
    by (rule mp)
  then obtain og' pos' where a': "findLoadedFilterRef exampleDialog (origin (?fl ! nat 1)) 1 = Inr (InRefs og' pos')"
    and b': "refAt d' og' pos' = (refAt exampleDialog og' pos')\<lparr>filter_index := 0\<rparr>"
    by auto
  from a' have "og' = 0 \<and> pos' = 1" unfolding o1 f1 by simp
  with b' have r1: "refAt d' 0 1 = \<lparr>loaded_index = 1, filter_index = 0, modified = False\<rparr>"
    by (simp add: refAt_def exampleDialog_refs)
  from lkc exampleDialog_consistent p0
  have "findLoadedFilterRef d' (origin (filterList (filterSet d') ! nat 1)) 1
            = findLoadedFilterRef exampleDialog (origin (?fl ! nat 0)) 0"
    by simp
  then have lk: "findLoadedFilterRef d' 0 1 = Inr (InRefs 0 0)"
    unfolding ent o0 f0 .
  have "moveFilter exampleDialog 0 1 = Inr d'
          \<and> map pattern (filterList (filterSet d')) = [''WARN'', ''ERROR'', ''New Filter'']
          \<and> loaded_offset (filterList (filterSet d') ! 1) = 0
          \<and> refAt d' 0 0 = \<lparr>loaded_index = 0, filter_index = 1, modified = False\<rparr>
          \<and> refAt d' 0 1 = \<lparr>loaded_index = 1, filter_index = 0, modified = False\<rparr>
          \<and> findLoadedFilterRef d' 0 1 = Inr (InRefs 0 0)"
    using d' fl off r0 r1 lk by simp
  then have ex: "\<exists>d'. moveFilter exampleDialog 0 1 = Inr d'
          \<and> map pattern (filterList (filterSet d')) = [''WARN'', ''ERROR'', ''New Filter'']
          \<and> loaded_offset (filterList (filterSet d') ! 1) = 0
          \<and> refAt d' 0 0 = \<lparr>loaded_index = 0, filter_index = 1, modified = False\<rparr>
          \<and> refAt d' 0 1 = \<lparr>loaded_index = 1, filter_index = 0, modified = False\<rparr>
          \<and> findLoadedFilterRef d' 0 1 = Inr (InRefs 0 0)"
    by (rule exI)
  show ?thesis
    by (intro conjI exampleDialog_consistent p0 p1 f0 f1 ex)
qed

subsection \<open>Retrieving a filter\<close>



lemma findNamedSet_first:
  "k < length ns \<Longrightarrow> filename (ns ! k) = F \<Longrightarrow> \<forall>j < k. filename (ns ! j) \<noteq> F \<Longrightarrow>
   findNamedSet ns F i = Some (i + k)"
proof (induction ns arbitrary: i k)
  case Nil
  then show ?case by simp
next
  case (Cons n ns)
  show ?case
  proof (cases k)
    case 0
    with Cons.prems show ?thesis by simp
  next
    case (Suc k')
    have nf: "filename n \<noteq> F"
      using Cons.prems(3) Suc by (metis nth_Cons_0 zero_less_Suc)
    have later: "\<forall>j < k'. filename (ns ! j) \<noteq> F"
      using Cons.prems(3) Suc by (metis Suc_less_eq nth_Cons_Suc)
    have "findNamedSet ns F (Suc i) = Some (Suc i + k')"
      using Cons.IH [of k' "Suc i"] Cons.prems(1,2) Suc later by simp
    with nf Suc show ?thesis by simp
  qed
qed

lemma findNamedSet_None:
  "findNamedSet ns F i = None \<longleftrightarrow> (\<forall>n \<in> set ns. filename n \<noteq> F)"
  by (induction ns arbitrary: i) auto


lemma getList_LOG [simp]: "getList loc (LOG e env) = getList loc env"
  by (simp add: getList_def LOG_def split: SetLoc.splits)

lemma persistent_LOG [simp]: "persistent (LOG e env) = persistent env"
  by (simp add: LOG_def)





lemma QFile_exists_emplace_back [simp]:
  "QFile_exists (emplace_back n env) F = QFile_exists env F"
  by (simp add: QFile_exists_def emplace_back_def)

lemma namedFilterSets_emplace_back [simp]:
  "namedFilterSets (persistent (emplace_back n env)) = namedFilterSets (persistent env) @ [n]"
  by (simp add: emplace_back_def)



























subsection \<open>Saving and undoing changes\<close>

lemma copyStyle_fields [simp]:
  "pattern (copyStyle src dst) = pattern src"
  "foreColorName (copyStyle src dst) = foreColorName src"
  "backColorName (copyStyle src dst) = backColorName src"
  "ignoreCase (copyStyle src dst) = ignoreCase dst"
  "origin (copyStyle src dst) = origin dst"
  "loaded_offset (copyStyle src dst) = loaded_offset dst"
  "enabled (copyStyle src dst) = enabled dst"
  by (simp_all add: copyStyle_def setBackColor_def setForeColor_def setPattern_def pattern_def ignoreCase_def)

















subsection \<open>Retrieving the loaded filter sets\<close>



































subsection \<open>Saving and retrieving a filter set\<close>

















lemma standalone_putList_InRegistry [simp]:
  "standalone (putList (InRegistry k) fs env) = standalone env"
  by (simp add: putList_def mapNamedSet_def)



lemma getList_putList_Standalone [simp]: "getList Standalone (putList Standalone fs env) = fs"
  by (simp add: getList_def putList_def)

lemma persistent_putList_Standalone [simp]: "persistent (putList Standalone fs env) = persistent env"
  by (simp add: putList_def)





end
